theory Spec2Isabelle
  imports Main "HOL-Library.FSet" "HOL-Library.Sublist" "HOL-Library.AList"
begin

section \<open>The progress reporter \<open>scripts/progress.py\<close>\<close>

text \<open>
  The script reads a completion-state file, walks the \<open>exercises\<close> directory, counts the
  completed exercises overall and per topic, prints the counts as JSON and patches a marked
  block of the README. Each part below is a shallow embedding of the Python function of the
  same name. Python strings are \<open>string\<close>s (a \<open>char\<close> stands for a code point below 256),
  Python sets are finite sets (\<open>fset\<close>), the catalog dictionary is an association list in
  insertion order, Python's unbounded integers are \<open>int\<close>, a file that may be missing
  is an \<open>option\<close>, and a function that may raise returns \<open>py_error + 'a\<close>.
\<close>

subsection \<open>Constants\<close>

text \<open>
  \<^verbatim>\<open>
  EXCLUDE_DIRS = {"answers", ".git", "target"}
  VALID_EXTS = {".rs"}
  \<close>
\<close>

definition EXCLUDE_DIRS :: "string set" where
  "EXCLUDE_DIRS = {''answers'', ''.git'', ''target''}"

definition VALID_EXTS :: "string set" where
  "VALID_EXTS = {''.rs''}"

abbreviation NL :: char where
  "NL \<equiv> CHR 0x0A"

subsection \<open>String methods used by the script\<close>

text \<open>
  \<open>str.splitlines\<close> ends a line at \<open>\n\<close>, \<open>\r\n\<close>, \<open>\r\<close>, \<open>\v\<close>, \<open>\f\<close>, \<open>\x1c\<close>, \<open>\x1d\<close>,
  \<open>\x1e\<close> and \<open>\x85\<close>, keeps empty lines, and adds no empty line after a final line
  break. \<open>str.strip\<close> removes leading and trailing white space.
\<close>

definition is_linebreak :: "char \<Rightarrow> bool" where
  "is_linebreak c = ((of_char c :: nat) \<in> {0x0A, 0x0B, 0x0C, 0x0D, 0x1C, 0x1D, 0x1E, 0x85})"

definition is_space :: "char \<Rightarrow> bool" where
  "is_space c =
     (let k = (of_char c :: nat)
      in (9 \<le> k \<and> k \<le> 13) \<or> (28 \<le> k \<and> k \<le> 31) \<or> k = 32 \<or> k = 0x85 \<or> k = 0xA0)"

fun splitlines_from :: "string \<Rightarrow> string \<Rightarrow> string list" where
  "splitlines_from cur [] = (if cur = [] then [] else [cur])"
| "splitlines_from cur [c] = (if is_linebreak c then [cur] else [cur @ [c]])"
| "splitlines_from cur (c # d # cs) =
     (if c = CHR 0x0D \<and> d = CHR 0x0A then cur # splitlines_from [] cs
      else if is_linebreak c then cur # splitlines_from [] (d # cs)
      else splitlines_from (cur @ [c]) (d # cs))"

definition splitlines :: "string \<Rightarrow> string list" where
  "splitlines text = splitlines_from [] text"

definition strip :: "string \<Rightarrow> string" where
  "strip s = rev (dropWhile is_space (rev (dropWhile is_space s)))"

text \<open>\<open>s.removesuffix(suf)\<close>: the string without \<open>suf\<close> when it ends with it.\<close>

definition removesuffix :: "string \<Rightarrow> string \<Rightarrow> string" where
  "removesuffix suf s =
     (if suf \<noteq> [] \<and> suffix suf s then take (length s - length suf) s else s)"

text \<open>
  \<open>s.find(sub)\<close>: the index of the first occurrence of \<open>sub\<close> in \<open>s\<close>, \<open>None\<close> for
  Python's \<open>-1\<close>. \<open>sub in s\<close> holds when there is one.
\<close>

fun find_sub :: "string \<Rightarrow> string \<Rightarrow> nat option" where
  "find_sub sub [] = (if sub = [] then Some 0 else None)"
| "find_sub sub (c # cs) =
     (if prefix sub (c # cs) then Some 0 else map_option Suc (find_sub sub cs))"

definition str_in :: "string \<Rightarrow> string \<Rightarrow> bool" where
  "str_in sub s = (find_sub sub s \<noteq> None)"

text \<open>\<open>str(i)\<close> of an integer, as the f-strings format the counts.\<close>

definition digit_char :: "nat \<Rightarrow> char" where
  "digit_char k = char_of (48 + k)"

fun str_nat :: "nat \<Rightarrow> string" where
  "str_nat n = (if n < 10 then [digit_char n] else str_nat (n div 10) @ [digit_char (n mod 10)])"

declare str_nat.simps [simp del]

definition str_int :: "int \<Rightarrow> string" where
  "str_int i = (if i < 0 then CHR ''-'' # str_nat (nat (- i)) else str_nat (nat i))"

subsection \<open>\<open>read_completed_slugs\<close>\<close>

text \<open>
  \<^verbatim>\<open>
  _slug_re = re.compile(r"^([A-Za-z0-9_\-\.]+)")

  def read_completed_slugs():
      if not STATE_FILE.exists():
          return set()
      done = set()
      for line in STATE_FILE.read_text(encoding="utf-8", errors="ignore").splitlines():
          line = line.strip()
          if not line:
              continue
          m = _slug_re.match(line)
          if not m:
              continue
          slug = m.group(1).removesuffix(".rs")
          done.add(slug)
      return done
  \<close>
  The state file is \<open>None\<close> when it does not exist and its decoded text otherwise.
\<close>

definition slug_char :: "char \<Rightarrow> bool" where
  "slug_char c =
     (let k = (of_char c :: nat)
      in (65 \<le> k \<and> k \<le> 90) \<or> (97 \<le> k \<and> k \<le> 122) \<or> (48 \<le> k \<and> k \<le> 57)
         \<or> c = CHR ''_'' \<or> c = CHR ''-'' \<or> c = CHR ''.'')"

definition slug_re_match :: "string \<Rightarrow> string option" where
  "slug_re_match line =
     (let g = takeWhile slug_char line in if g = [] then None else Some g)"

fun read_lines :: "string list \<Rightarrow> string fset \<Rightarrow> string fset" where
  "read_lines [] acc = acc"
| "read_lines (l # ls) acc =
     (let line = strip l
      in if line = [] then read_lines ls acc
         else (case slug_re_match line of
                 None \<Rightarrow> read_lines ls acc
               | Some g \<Rightarrow> read_lines ls (finsert (removesuffix ''.rs'' g) acc)))"

definition read_completed_slugs :: "string option \<Rightarrow> string fset" where
  "read_completed_slugs state_file =
     (case state_file of
        None \<Rightarrow> {||}
      | Some text \<Rightarrow> read_lines (splitlines text) {||})"

subsection \<open>\<open>find_all_exercises\<close>\<close>

text \<open>
  \<^verbatim>\<open>
  def find_all_exercises():
      all_slugs = {}
      if not EXER_DIR.exists():
          return {}
      for path in EXER_DIR.rglob("*"):
          if any(part in EXCLUDE_DIRS for part in path.parts):
              continue
          if path.is_file() and path.suffix in VALID_EXTS:
              topic = path.parent.name  # e.g., "variables"
              slug = path.stem          # e.g., "variables1"
              all_slugs.setdefault(topic, set()).add(slug)
      return all_slugs
  \<close>
  A path is the list of its \<open>parts\<close>. The directory tree under \<open>EXER_DIR\<close> is a
  \<open>fsnode\<close>: a regular file or a directory with named children (anything that is neither,
  such as a dangling link, behaves like an empty directory here). \<open>rglob\<close> lists every entry
  below a directory with its full path and whether \<open>is_file()\<close> holds: first the children
  of the directory, then what lies below each child in turn, as \<open>Path.rglob("*")\<close> does.
  The directory itself is not listed, and a file has nothing below it. \<open>ROOT\<close>, the absolute path of the repository,
  is a parameter, and \<open>EXER_DIR = ROOT / "exercises"\<close>.
\<close>

type_synonym path = "string list"

datatype fsnode = File | Dir "(string \<times> fsnode) list"

fun rglob :: "path \<Rightarrow> fsnode \<Rightarrow> (path \<times> bool) list" where
  "rglob p File = []"
| "rglob p (Dir cs) =
     map (\<lambda>(n, c). (p @ [n], c = File)) cs
       @ concat (map (\<lambda>(n, c). rglob (p @ [n]) c) cs)"

definition EXER_DIR :: "path \<Rightarrow> path" where
  "EXER_DIR root = root @ [''exercises'']"

text \<open>
  \<open>PurePath.suffix\<close> and \<open>PurePath.stem\<close> (Python 3.9 to 3.13) look at the last dot of the
  final component: it starts the suffix unless it is the first or the last character of the
  name. \<open>path.parent.name\<close> is the component before the last one.
\<close>

definition rfind_dot :: "string \<Rightarrow> nat option" where
  "rfind_dot name =
     (if CHR ''.'' \<in> set name
      then Some (length name - 1 - length (takeWhile (\<lambda>c. c \<noteq> CHR ''.'') (rev name)))
      else None)"

definition name_suffix :: "string \<Rightarrow> string" where
  "name_suffix name =
     (case rfind_dot name of
        None \<Rightarrow> []
      | Some i \<Rightarrow> if 0 < i \<and> i < length name - 1 then drop i name else [])"

definition name_stem :: "string \<Rightarrow> string" where
  "name_stem name =
     (case rfind_dot name of
        None \<Rightarrow> name
      | Some i \<Rightarrow> if 0 < i \<and> i < length name - 1 then take i name else name)"

definition path_name :: "path \<Rightarrow> string" where
  "path_name p = (case rev p of [] \<Rightarrow> [] | n # _ \<Rightarrow> n)"

definition path_suffix :: "path \<Rightarrow> string" where
  "path_suffix p = name_suffix (path_name p)"

definition path_stem :: "path \<Rightarrow> string" where
  "path_stem p = name_stem (path_name p)"

definition parent_name :: "path \<Rightarrow> string" where
  "parent_name p = (case rev p of _ # d # _ \<Rightarrow> d | _ \<Rightarrow> [])"

definition excluded :: "path \<Rightarrow> bool" where
  "excluded p = list_ex (\<lambda>part. part \<in> EXCLUDE_DIRS) p"

type_synonym catalog = "(string \<times> string fset) list"

text \<open>\<open>all_slugs.setdefault(topic, set()).add(slug)\<close>\<close>

fun add_slug :: "string \<Rightarrow> string \<Rightarrow> catalog \<Rightarrow> catalog" where
  "add_slug topic slug [] = [(topic, {|slug|})]"
| "add_slug topic slug ((k, v) # rest) =
     (if k = topic then (k, finsert slug v) # rest
      else (k, v) # add_slug topic slug rest)"

fun scan :: "(path \<times> bool) list \<Rightarrow> catalog \<Rightarrow> catalog" where
  "scan [] all_slugs = all_slugs"
| "scan ((p, is_file) # rest) all_slugs =
     (if excluded p then scan rest all_slugs
      else if is_file \<and> path_suffix p \<in> VALID_EXTS
           then scan rest (add_slug (parent_name p) (path_stem p) all_slugs)
           else scan rest all_slugs)"

definition find_all_exercises :: "path \<Rightarrow> fsnode option \<Rightarrow> catalog" where
  "find_all_exercises root exer =
     (case exer of
        None \<Rightarrow> []
      | Some t \<Rightarrow> scan (rglob (EXER_DIR root) t) [])"

subsection \<open>\<open>percent\<close>\<close>

text \<open>
  \<^verbatim>\<open>
  def percent(n, d):
      return 0 if d == 0 else round((n * 100.0) / d)
  \<close>
  The arithmetic is that of double-precision numbers: \<open>n\<close> is converted to a double and
  multiplied by \<open>100.0\<close>, \<open>d\<close> is converted to a double, and the quotient is a double again.
  Every one of these steps rounds its exact result to the nearest number with a 53-bit
  significand, an exact half going to the even significand; \<open>f64\<close> is that rounding, and
  a double is the rational number it stands for. Python's one-argument \<open>round\<close> then
  returns the integer nearest to the double, an exact half going to the even integer, and
  the division raises when the divisor is zero. The exponent range of doubles is not
  modelled: the script's conversion raises \<open>OverflowError\<close> for counts of \<open>2 ^ 1024\<close> and
  more, which no directory tree reaches.
\<close>

datatype py_error = ZeroDivisionError

definition py_round :: "rat \<Rightarrow> int" where
  "py_round x =
     (let f = \<lfloor>x\<rfloor>; r = x - of_int f
      in if r < 1 / 2 then f
         else if 1 / 2 < r then f + 1
         else if even f then f else f + 1)"

text \<open>The number of binary digits of a positive integer.\<close>

function bitlen :: "int \<Rightarrow> int" where
  "bitlen k = (if k \<le> 0 then 0 else 1 + bitlen (k div 2))"
  by pat_completeness auto
termination
  by (relation "measure nat") auto

declare bitlen.simps [simp del]

text \<open>
  \<open>ilog2 x\<close> is the binary exponent of a positive \<open>x\<close>, the integer \<open>e\<close> with
  \<open>2 ^ e \<le> x < 2 ^ (e + 1)\<close> (lemmas \<open>ilog2_lower\<close> and \<open>ilog2_upper\<close> below).
\<close>

definition ilog2 :: "rat \<Rightarrow> int" where
  "ilog2 x = (if 1 \<le> x then bitlen \<lfloor>x\<rfloor> - 1 else - bitlen (\<lceil>1 / x\<rceil> - 1))"

text \<open>
  Rounding to double precision: the number is scaled to a significand between \<open>2 ^ 52\<close>
  and \<open>2 ^ 53\<close>, the significand is rounded to an integer (half to even) and scaled back.
\<close>

definition f64 :: "rat \<Rightarrow> rat" where
  "f64 x =
     (if x = 0 then 0
      else (let e = ilog2 \<bar>x\<bar> - 52
            in of_int (py_round (x / 2 powi e)) * 2 powi e))"

text \<open>\<open>x / y\<close> on doubles raises \<open>ZeroDivisionError\<close> when \<open>y\<close> is zero.\<close>

definition truediv :: "rat \<Rightarrow> rat \<Rightarrow> py_error + rat" where
  "truediv x y = (if y = 0 then Inl ZeroDivisionError else Inr (f64 (x / y)))"

definition percent :: "int \<Rightarrow> int \<Rightarrow> py_error + int" where
  "percent n d =
     (if d = 0 then Inr 0
      else (case truediv (f64 (f64 (of_int n) * 100)) (f64 (of_int d)) of
              Inl e \<Rightarrow> Inl e
            | Inr q \<Rightarrow> Inr (py_round q)))"

subsection \<open>\<open>patch_readme\<close>\<close>

text \<open>
  \<^verbatim>\<open>
  def patch_readme(summary):
      if not README.exists():
          return
      content = README.read_text(encoding="utf-8")
      marker = "<!-- RUSTLINGS_PROGRESS -->"
      line = f"![Rustlings Progress](docs/badge.svg)  \n**{summary['done']} / {summary['total']} completed ({summary['pct']}%)**"
      if marker in content:
          content = re.sub(r"<!-- RUSTLINGS_PROGRESS -->.*?<!-- /RUSTLINGS_PROGRESS -->",
                           f"{marker}\n{line}\n<!-- /RUSTLINGS_PROGRESS -->",
                           content, flags=re.S)
      else:
          content += f"\n\n{marker}\n{line}\n<!-- /RUSTLINGS_PROGRESS -->\n"
      README.write_text(content, encoding="utf-8")
  \<close>
  The summary dictionary is a record (\<open>done\<close> is a keyword of Isabelle, so the fields are
  \<open>n_done\<close>, \<open>n_total\<close> and \<open>pct\<close>). The README is \<open>None\<close> when it does not exist and its
  text otherwise (as \<open>read_text\<close> returns it and \<open>write_text\<close> takes it); \<open>patch_readme\<close>
  returns the README after the call.
\<close>

record stats =
  n_done :: int
  n_total :: int
  pct :: int

definition marker :: string where
  "marker = ''<!-- RUSTLINGS_PROGRESS -->''"

definition end_marker :: string where
  "end_marker = ''<!-- /RUSTLINGS_PROGRESS -->''"

definition line :: "stats \<Rightarrow> string" where
  "line summary =
     ''![Rustlings Progress](docs/badge.svg)  '' @ [NL] @ ''**'' @ str_int (n_done summary)
       @ '' / '' @ str_int (n_total summary) @ '' completed ('' @ str_int (pct summary) @ ''%)**''"

definition block :: "stats \<Rightarrow> string" where
  "block summary = marker @ [NL] @ line summary @ [NL] @ end_marker"

text \<open>
  \<open>re.sub\<close> with the pattern \<open>marker .*? end_marker\<close> and \<open>re.S\<close> walks the text from the
  left. Where the begin marker starts and an end marker follows it, the text from the begin
  marker to the first such end marker is replaced and the walk goes on behind it; elsewhere
  the character is kept. The replacement holds no backslash, so it is inserted as it is.
\<close>

function re_sub :: "string \<Rightarrow> string \<Rightarrow> string" where
  "re_sub repl [] = []"
| "re_sub repl (c # cs) =
     (if prefix marker (c # cs)
      then (case find_sub end_marker (drop (length marker) (c # cs)) of
              Some k \<Rightarrow>
                repl @ re_sub repl (drop (length marker + k + length end_marker) (c # cs))
            | None \<Rightarrow> c # re_sub repl cs)
      else c # re_sub repl cs)"
  by pat_completeness auto
termination
  by (relation "measure (\<lambda>(repl, s). length s)") (auto simp: marker_def)

declare re_sub.simps(2) [simp del]

definition patch_readme :: "stats \<Rightarrow> string option \<Rightarrow> string option" where
  "patch_readme summary readme =
     (case readme of
        None \<Rightarrow> None
      | Some content \<Rightarrow>
          Some (if str_in marker content
                then re_sub (block summary) content
                else content @ [NL, NL] @ block summary @ [NL]))"

subsection \<open>\<open>main\<close>\<close>

text \<open>
  \<^verbatim>\<open>
  def main(update_files=True):
      completed = read_completed_slugs()
      topics = find_all_exercises()

      total = sum(len(v) for v in topics.values())
      done = sum(len(v & completed) for v in topics.values())
      pct = percent(done, total)

      per_topic = {}
      for t, slugs in topics.items():
          d = len(slugs & completed)
          per_topic[t] = {"done": d, "total": len(slugs), "pct": percent(d, len(slugs))}

      summary = {"done": done, "total": total, "pct": pct}

      if update_files:
          BADGE_SVG.parent.mkdir(parents=True, exist_ok=True)
          BADGE_SVG.write_text(make_badge_svg(pct), encoding="utf-8")
          write_progress_md(summary, per_topic)
          patch_readme(summary)

      print(json.dumps({"summary": summary, "topics": per_topic}, indent=2))
  \<close>
  \<open>aggregate\<close> is the computation between the two reads and the writes; its result is the
  object handed to \<open>json.dumps\<close>. \<open>per_topic_loop\<close> is the loop that fills \<open>per_topic\<close>,
  and \<open>AList.update\<close> is the dictionary assignment \<open>per_topic[t] = ...\<close>. An error raised on
  the way ends the run: nothing is written and nothing is printed. The files the script
  reads and patches form the \<open>world\<close>; the badge and the progress table are written and
  never read back, and are left out.
\<close>

record report =
  summary :: stats
  topics :: "(string \<times> stats) list"

definition total_of :: "catalog \<Rightarrow> int" where
  "total_of cat = sum_list (map (\<lambda>(t, v). int (fcard v)) cat)"

definition done_of :: "catalog \<Rightarrow> string fset \<Rightarrow> int" where
  "done_of cat completed = sum_list (map (\<lambda>(t, v). int (fcard (v |\<inter>| completed))) cat)"

fun per_topic_loop ::
  "catalog \<Rightarrow> string fset \<Rightarrow> (string \<times> stats) list \<Rightarrow> py_error + (string \<times> stats) list"
where
  "per_topic_loop [] completed per_topic = Inr per_topic"
| "per_topic_loop ((t, slugs) # rest) completed per_topic =
     (let d = int (fcard (slugs |\<inter>| completed))
      in case percent d (int (fcard slugs)) of
           Inl e \<Rightarrow> Inl e
         | Inr p \<Rightarrow>
             per_topic_loop rest completed
               (AList.update t \<lparr>n_done = d, n_total = int (fcard slugs), pct = p\<rparr> per_topic))"

definition aggregate :: "catalog \<Rightarrow> string fset \<Rightarrow> py_error + report" where
  "aggregate cat completed =
     (let total = total_of cat;
          dn = done_of cat completed
      in case percent dn total of
           Inl e \<Rightarrow> Inl e
         | Inr p \<Rightarrow>
             (case per_topic_loop cat completed [] of
                Inl e \<Rightarrow> Inl e
              | Inr per_topic \<Rightarrow>
                  Inr \<lparr>summary = \<lparr>n_done = dn, n_total = total, pct = p\<rparr>,
                       topics = per_topic\<rparr>))"

record world =
  state_file :: "string option"
  root :: path
  exercises :: "fsnode option"
  readme :: "string option"

definition main :: "bool \<Rightarrow> world \<Rightarrow> py_error + world \<times> report" where
  "main update_files w =
     (let completed = read_completed_slugs (state_file w);
          cat = find_all_exercises (root w) (exercises w)
      in case aggregate cat completed of
           Inl e \<Rightarrow> Inl e
         | Inr out \<Rightarrow>
             Inr (if update_files
                  then w\<lparr>readme := patch_readme (summary out) (readme w)\<rparr>
                  else w,
                  out))"

text \<open>What a run prints: the report, when the run gets that far.\<close>

definition printed :: "py_error + world \<times> report \<Rightarrow> py_error + report" where
  "printed res = map_sum id snd res"

text \<open>
  The specification's reading of the overall count: the identifiers of all topics together,
  intersected once with the completed set.
\<close>

definition universe :: "catalog \<Rightarrow> string fset" where
  "universe cat = fold (\<lambda>(t, v) u. u |\<union>| v) cat {||}"

definition spec_done :: "catalog \<Rightarrow> string fset \<Rightarrow> int" where
  "spec_done cat completed = int (fcard (universe cat |\<inter>| completed))"

fun disjoint_topics :: "catalog \<Rightarrow> bool" where
  "disjoint_topics [] = True"
| "disjoint_topics ((t, v) # rest) =
     (list_all (\<lambda>(t', v'). v |\<inter>| v' = {||}) rest \<and> disjoint_topics rest)"

section \<open>Properties\<close>

subsection \<open>Rounding\<close>








lemma py_round_le:
  assumes "y < of_int k + 1 / 2"
  shows "py_round y \<le> k"
proof -
  have "y < of_int (k + 1)" using assms by simp
  then have "\<lfloor>y\<rfloor> < k + 1" by (simp only: floor_less_iff)
  then have "\<lfloor>y\<rfloor> = k \<or> \<lfloor>y\<rfloor> + 1 \<le> k" by linarith
  then show ?thesis
  proof
    assume f: "\<lfloor>y\<rfloor> = k"
    have "y - of_int k < 1 / 2" using assms by simp
    then show ?thesis by (simp add: py_round_def f)
  next
    assume "\<lfloor>y\<rfloor> + 1 \<le> k"
    moreover have "py_round y \<le> \<lfloor>y\<rfloor> + 1" by (simp add: py_round_def Let_def)
    ultimately show ?thesis by linarith
  qed
qed

lemma py_round_ge:
  assumes "of_int k - 1 / 2 < y"
  shows "k \<le> py_round y"
proof -
  have "of_int (k - 1) \<le> y" using assms by simp
  then have "k - 1 \<le> \<lfloor>y\<rfloor>" by (simp only: le_floor_iff)
  then have "\<lfloor>y\<rfloor> = k - 1 \<or> k \<le> \<lfloor>y\<rfloor>" by linarith
  then show ?thesis
  proof
    assume f: "\<lfloor>y\<rfloor> = k - 1"
    have "1 / 2 < y - of_int (k - 1)" using assms by simp
    then show ?thesis by (simp add: py_round_def f)
  next
    assume "k \<le> \<lfloor>y\<rfloor>"
    moreover have "\<lfloor>y\<rfloor> \<le> py_round y" by (simp add: py_round_def Let_def)
    ultimately show ?thesis by linarith
  qed
qed

subsection \<open>Double precision\<close>

lemma bitlen_nonneg: "0 \<le> bitlen k"
proof (induction k rule: bitlen.induct)
  case (1 k)
  show ?case
  proof (cases "k \<le> 0")
    case True
    then show ?thesis by (subst bitlen.simps) simp
  next
    case False
    with 1 show ?thesis by (subst bitlen.simps) simp
  qed
qed

lemma bitlen_upper: "k < 2 ^ nat (bitlen k)"
proof (induction k rule: bitlen.induct)
  case (1 k)
  show ?case
  proof (cases "k \<le> 0")
    case True
    have "(0::int) < 2 ^ nat (bitlen k)" by simp
    with True show ?thesis by linarith
  next
    case False
    from 1 [OF False] have "k div 2 < 2 ^ nat (bitlen (k div 2))" .
    then have "k < 2 * 2 ^ nat (bitlen (k div 2))" by linarith
    moreover have "nat (bitlen k) = Suc (nat (bitlen (k div 2)))"
      using False bitlen_nonneg [of "k div 2"] by (subst bitlen.simps) (simp add: nat_add_distrib)
    ultimately show ?thesis by simp
  qed
qed

lemma bitlen_pos: "0 < k \<Longrightarrow> 0 < bitlen k"
  using bitlen_nonneg [of "k div 2"] by (subst bitlen.simps) simp

lemma bitlen_lower: "0 < k \<Longrightarrow> 2 ^ nat (bitlen k - 1) \<le> k"
proof (induction k rule: bitlen.induct)
  case (1 k)
  from "1.prems" have k: "\<not> k \<le> 0" by simp
  have b: "bitlen k - 1 = bitlen (k div 2)"
    using k by (subst bitlen.simps) simp
  show ?case
  proof (cases "k div 2 \<le> 0")
    case True
    then have "bitlen (k div 2) = 0" by (subst bitlen.simps) simp
    with b "1.prems" show ?thesis by simp
  next
    case False
    then have pos: "0 < k div 2" by simp
    from "1.IH" [OF k pos] have ih: "2 ^ nat (bitlen (k div 2) - 1) \<le> k div 2" .
    from bitlen_pos [OF pos] have "nat (bitlen (k div 2)) = Suc (nat (bitlen (k div 2) - 1))"
      by simp
    then have "(2::int) ^ nat (bitlen (k div 2)) = 2 * 2 ^ nat (bitlen (k div 2) - 1)"
      by simp
    with ih have "(2::int) ^ nat (bitlen (k div 2)) \<le> k" by linarith
    with b show ?thesis by simp
  qed
qed


lemma ilog2_lower:
  assumes "0 < x"
  shows "2 powi (ilog2 x) \<le> x"
proof (cases "1 \<le> x")
  case True
  then have fl: "0 < \<lfloor>x\<rfloor>" by simp
  have e: "ilog2 x = bitlen \<lfloor>x\<rfloor> - 1" using True by (simp add: ilog2_def)
  have nn: "0 \<le> bitlen \<lfloor>x\<rfloor> - 1" using bitlen_pos [OF fl] by simp
  have "(2::rat) powi (ilog2 x) = 2 ^ nat (bitlen \<lfloor>x\<rfloor> - 1)"
    unfolding e by (rule power_int_nonneg_exp [OF nn])
  also have "\<dots> = of_int (2 ^ nat (bitlen \<lfloor>x\<rfloor> - 1))" by simp
  also have "\<dots> \<le> of_int \<lfloor>x\<rfloor>"
    using bitlen_lower [OF fl] by (simp only: of_int_le_iff)
  also have "\<dots> \<le> x" by (rule of_int_floor_le)
  finally show ?thesis .
next
  case False
  let ?y = "1 / x"
  let ?k = "\<lceil>?y\<rceil> - 1"
  have e: "ilog2 x = - bitlen ?k" using False by (simp add: ilog2_def)
  have "of_int \<lceil>?y\<rceil> < (of_int (2 ^ nat (bitlen ?k)) :: rat) + 1"
  proof -
    have "?k < 2 ^ nat (bitlen ?k)" by (rule bitlen_upper)
    then have "\<lceil>?y\<rceil> < 2 ^ nat (bitlen ?k) + 1" by simp
    then have "(of_int \<lceil>?y\<rceil> :: rat) < of_int (2 ^ nat (bitlen ?k) + 1)"
      by (simp only: of_int_less_iff)
    then show ?thesis by simp
  qed
  then have "\<lceil>?y\<rceil> \<le> 2 ^ nat (bitlen ?k)"
    using bitlen_upper [of ?k] by simp
  then have "(of_int \<lceil>?y\<rceil> :: rat) \<le> of_int (2 ^ nat (bitlen ?k))"
    by (simp only: of_int_le_iff)
  with le_of_int_ceiling [of ?y] have "?y \<le> of_int (2 ^ nat (bitlen ?k))"
    by (rule order_trans)
  then have "?y \<le> 2 ^ nat (bitlen ?k)"
    by (simp only: of_int_power of_int_numeral)
  then have "1 \<le> x * 2 ^ nat (bitlen ?k)"
    using assms by (simp add: field_simps)
  then have "1 / 2 ^ nat (bitlen ?k) \<le> x"
    by (simp add: field_simps)
  moreover have "(2::rat) powi (- bitlen ?k) = 1 / 2 ^ nat (bitlen ?k)"
    using bitlen_nonneg [of ?k] by (simp add: power_int_minus_divide power_int_nonneg_exp)
  ultimately show ?thesis by (simp add: e)
qed

lemma ilog2_upper:
  assumes "0 < x"
  shows "x < 2 powi (ilog2 x + 1)"
proof (cases "1 \<le> x")
  case True
  then have fl: "0 < \<lfloor>x\<rfloor>" by simp
  have e: "ilog2 x + 1 = bitlen \<lfloor>x\<rfloor>" using True by (simp add: ilog2_def)
  have "\<lfloor>x\<rfloor> + 1 \<le> 2 ^ nat (bitlen \<lfloor>x\<rfloor>)"
    using bitlen_upper [of "\<lfloor>x\<rfloor>"] by simp
  then have "(of_int (\<lfloor>x\<rfloor> + 1) :: rat) \<le> of_int (2 ^ nat (bitlen \<lfloor>x\<rfloor>))"
    by (simp only: of_int_le_iff)
  moreover have "x < of_int (\<lfloor>x\<rfloor> + 1)"
    using floor_correct [of x] by simp
  ultimately have "x < 2 ^ nat (bitlen \<lfloor>x\<rfloor>)" by simp
  moreover have "(2::rat) powi (bitlen \<lfloor>x\<rfloor>) = 2 ^ nat (bitlen \<lfloor>x\<rfloor>)"
    by (rule power_int_nonneg_exp [OF bitlen_nonneg])
  ultimately show ?thesis by (simp add: e)
next
  case False
  let ?y = "1 / x"
  let ?k = "\<lceil>?y\<rceil> - 1"
  from False assms have y1: "1 < ?y" by simp
  then have "1 < \<lceil>?y\<rceil>" by (simp add: less_ceiling_iff)
  then have kpos: "0 < ?k" by simp
  have e: "ilog2 x + 1 = - (bitlen ?k - 1)" using False by (simp add: ilog2_def)
  have nn: "0 \<le> bitlen ?k - 1" using bitlen_pos [OF kpos] by simp
  have "(of_int (2 ^ nat (bitlen ?k - 1)) :: rat) \<le> of_int ?k"
    using bitlen_lower [OF kpos] by (simp only: of_int_le_iff)
  moreover have "(of_int ?k :: rat) < ?y"
    using ceiling_correct [of ?y] by simp
  ultimately have "2 ^ nat (bitlen ?k - 1) < ?y" by simp
  then have "x * 2 ^ nat (bitlen ?k - 1) < 1"
    using assms by (simp add: field_simps)
  then have "x < 1 / 2 ^ nat (bitlen ?k - 1)"
    by (simp add: field_simps)
  moreover have "(2::rat) powi (- (bitlen ?k - 1)) = 1 / 2 ^ nat (bitlen ?k - 1)"
    using nn by (simp only: power_int_minus_divide power_int_nonneg_exp)
  ultimately show ?thesis by (simp only: e)
qed

lemma py_round_error: "\<bar>of_int (py_round s) - s\<bar> \<le> 1 / 2"
proof -
  have lo: "of_int \<lfloor>s\<rfloor> \<le> s" and hi: "s < of_int \<lfloor>s\<rfloor> + 1"
    using floor_correct [of s] by simp_all
  show ?thesis
  proof (cases "s - of_int \<lfloor>s\<rfloor> < 1 / 2")
    case True
    then have "py_round s = \<lfloor>s\<rfloor>" by (simp add: py_round_def)
    with True lo show ?thesis by simp
  next
    case False
    then have "py_round s = \<lfloor>s\<rfloor> \<and> s - of_int \<lfloor>s\<rfloor> = 1 / 2 \<or> py_round s = \<lfloor>s\<rfloor> + 1"
      by (auto simp: py_round_def Let_def)
    then show ?thesis
    proof
      assume "py_round s = \<lfloor>s\<rfloor> \<and> s - of_int \<lfloor>s\<rfloor> = 1 / 2"
      then show ?thesis by simp
    next
      assume p: "py_round s = \<lfloor>s\<rfloor> + 1"
      have "\<bar>of_int (\<lfloor>s\<rfloor> + 1) - s\<bar> \<le> 1 / 2"
        using False hi unfolding of_int_add of_int_1 by linarith
      with p show ?thesis by simp
    qed
  qed
qed


lemma f64_error: "\<bar>f64 x - x\<bar> \<le> \<bar>x\<bar> / 2 ^ 53"
proof (cases "x = 0")
  case True
  then show ?thesis by (simp add: f64_def)
next
  case False
  let ?e = "ilog2 \<bar>x\<bar> - 52"
  let ?P = "(2::rat) powi ?e"
  let ?s = "x / ?P"
  have P: "0 < ?P" by (simp add: zero_less_power_int)
  have f: "f64 x = of_int (py_round ?s) * ?P"
    using False by (simp add: f64_def Let_def)
  have x: "x = ?s * ?P" using P by simp
  have "f64 x - x = (of_int (py_round ?s) - ?s) * ?P"
    unfolding f using P by (simp add: algebra_simps)
  then have "\<bar>f64 x - x\<bar> = \<bar>of_int (py_round ?s) - ?s\<bar> * ?P"
    using P by (simp add: abs_mult)
  also have "\<dots> \<le> (1 / 2) * ?P"
    using py_round_error [of ?s] P by (intro mult_right_mono) simp_all
  finally have err: "\<bar>f64 x - x\<bar> \<le> ?P / 2" by simp
  have "(2::rat) powi (?e + 52) \<le> \<bar>x\<bar>"
    using ilog2_lower [of "\<bar>x\<bar>"] False by simp
  moreover have "(2::rat) powi (?e + 52) = ?P * 2 ^ 52"
    by (subst power_int_add) simp_all
  ultimately have "?P * 2 ^ 52 \<le> \<bar>x\<bar>" by simp
  then have "?P / 2 \<le> \<bar>x\<bar> / 2 ^ 53" by simp
  with err show ?thesis by linarith
qed





lemma f64_nonzero: "x \<noteq> 0 \<Longrightarrow> f64 x \<noteq> 0"
proof
  assume x: "x \<noteq> 0" and "f64 x = 0"
  with f64_error [of x] have "\<bar>x\<bar> \<le> \<bar>x\<bar> / 2 ^ 53" by simp
  moreover have "\<bar>x\<bar> / 2 ^ 53 < \<bar>x\<bar>" using x by simp
  ultimately show False by simp
qed

lemma f64_le:
  assumes "0 \<le> x"
  shows "f64 x \<le> x * (1 + 1 / 2 ^ 53)"
proof -
  have "f64 x - x \<le> \<bar>f64 x - x\<bar>" by simp
  also have "\<dots> \<le> \<bar>x\<bar> / 2 ^ 53" by (rule f64_error)
  also have "\<dots> = x / 2 ^ 53" using assms by simp
  finally have "f64 x \<le> x + x / 2 ^ 53" by simp
  moreover have "x * (1 + 1 / 2 ^ 53) = x + x / 2 ^ 53"
    by (simp only: distrib_left mult_1_right times_divide_eq_right)
  ultimately show ?thesis by simp
qed

lemma f64_ge:
  assumes "0 \<le> x"
  shows "x * (1 - 1 / 2 ^ 53) \<le> f64 x"
proof -
  have "x - f64 x \<le> \<bar>f64 x - x\<bar>" by simp
  also have "\<dots> \<le> \<bar>x\<bar> / 2 ^ 53" by (rule f64_error)
  also have "\<dots> = x / 2 ^ 53" using assms by simp
  finally have "x - x / 2 ^ 53 \<le> f64 x" by simp
  moreover have "x * (1 - 1 / 2 ^ 53) = x - x / 2 ^ 53"
    by (simp only: right_diff_distrib mult_1_right times_divide_eq_right)
  ultimately show ?thesis by simp
qed

lemma f64_nonneg: "0 \<le> x \<Longrightarrow> 0 \<le> f64 x"
proof -
  assume x: "0 \<le> x"
  have "(0::rat) \<le> 1 - 1 / 2 ^ 53" by simp
  with x have "0 \<le> x * (1 - 1 / 2 ^ 53)" by (rule mult_nonneg_nonneg)
  with f64_ge [OF x] show ?thesis by linarith
qed

subsection \<open>\<open>percent\<close>\<close>


text \<open>For \<open>0 \<le> n \<le> d\<close> the result lies between 0 and 100, whatever the size of the counts.\<close>

lemma percent_bounds:
  assumes "0 \<le> n" and "n \<le> d"
  shows "\<exists>p. percent n d = Inr p \<and> 0 \<le> p \<and> p \<le> 100"
proof (cases "d = 0")
  case True
  then show ?thesis by (simp add: percent_def)
next
  case False
  with assms have d: "0 < d" by simp
  define u :: rat where "u = 1 / 2 ^ 53"
  define N where "N = f64 (of_int n)"
  define A where "A = f64 (N * 100)"
  define D where "D = f64 (of_int d)"
  have nn: "(0::rat) \<le> of_int n" and dd: "(0::rat) < of_int d"
    and nd: "(of_int n :: rat) \<le> of_int d"
    using assms d by simp_all
  have u: "0 < u" "u < 1" by (simp_all add: u_def)
  have N0: "0 \<le> N" unfolding N_def by (rule f64_nonneg [OF nn])
  have "N \<le> of_int n * (1 + u)" unfolding N_def u_def by (rule f64_le [OF nn])
  also have "\<dots> \<le> of_int d * (1 + u)"
    using nd u by (intro mult_right_mono) simp_all
  finally have N1: "N \<le> of_int d * (1 + u)" .
  have N100: "0 \<le> N * 100" using N0 by simp
  have A0: "0 \<le> A" unfolding A_def by (rule f64_nonneg [OF N100])
  have "A \<le> N * 100 * (1 + u)" unfolding A_def u_def by (rule f64_le [OF N100])
  also have "\<dots> \<le> of_int d * (1 + u) * 100 * (1 + u)"
    using N1 u by (intro mult_right_mono) simp_all
  finally have A1: "A \<le> of_int d * (100 * (1 + u) * (1 + u))"
    by (simp add: mult_ac)
  have Dlow: "of_int d * (1 - u) \<le> D"
    unfolding D_def u_def using dd by (intro f64_ge) simp
  have Dpos: "0 < of_int d * (1 - u)" using dd u by simp
  with Dlow have D0: "0 < D" by linarith
  have Q0: "0 \<le> A / D" using A0 D0 by simp
  have "A / D \<le> of_int d * (100 * (1 + u) * (1 + u)) / (of_int d * (1 - u))"
    using A0 A1 Dpos Dlow by (intro frac_le) simp_all
  also have "\<dots> = 100 * (1 + u) * (1 + u) / (1 - u)"
    using dd by simp
  finally have Q1: "A / D \<le> 100 * (1 + u) * (1 + u) / (1 - u)" .
  have "f64 (A / D) \<le> A / D * (1 + u)" unfolding u_def by (rule f64_le [OF Q0])
  also have "\<dots> \<le> 100 * (1 + u) * (1 + u) / (1 - u) * (1 + u)"
    using Q1 u by (intro mult_right_mono) simp_all
  also have "\<dots> < of_int 100 + 1 / 2" by (simp add: u_def)
  finally have up: "f64 (A / D) < of_int 100 + 1 / 2" .
  have "0 \<le> f64 (A / D)" by (rule f64_nonneg [OF Q0])
  then have lo: "of_int 0 - 1 / 2 < f64 (A / D)" by simp
  have "percent n d = Inr (py_round (f64 (A / D)))"
    using d D0 by (simp add: percent_def truediv_def A_def N_def D_def)
  with py_round_le [OF up] py_round_ge [OF lo] show ?thesis by simp
qed

text \<open>
  Beyond that size the rounding of the double arithmetic shows: here \<open>d\<close> is rounded up on
  conversion, the double quotient is exactly one half and the result is 0, where the
  exact quotient lies above one half.
\<close>

lemma percent_large_counts:
  "percent 45035996273705 9007199254740999 = Inr 0
     \<and> (9007199254740999 :: int) < 2 * (45035996273705 * 100)"
  by code_simp




text \<open>
  C8: \<open>percent 0 0 = 0\<close>. A zero denominator takes the first branch, whatever the
  numerator, so the division is only reached with a non-zero divisor and \<open>percent\<close> never
  raises \<open>ZeroDivisionError\<close>.
\<close>

theorem percent_zero_denominator:
  "percent 0 0 = Inr 0 \<and> percent n 0 = Inr 0 \<and> percent n d \<noteq> Inl ZeroDivisionError"
proof -
  have "percent n d \<noteq> Inl ZeroDivisionError"
  proof (cases "d = 0")
    case True
    then show ?thesis by (simp add: percent_def)
  next
    case False
    then have "f64 (of_int d) \<noteq> 0" by (intro f64_nonzero) simp
    with False show ?thesis by (simp add: percent_def truediv_def)
  qed
  then show ?thesis by (simp add: percent_def)
qed

subsection \<open>The aggregator\<close>

lemma fcard_inter_le: "fcard (v |\<inter>| c) \<le> fcard v"
  by (rule fcard_mono) simp

lemma done_le_total: "done_of cat completed \<le> total_of cat"
  unfolding done_of_def total_of_def
  by (induction cat) (auto simp: fcard_inter_le intro: add_mono)

lemma done_nonneg: "0 \<le> done_of cat completed"
  unfolding done_of_def by (induction cat) auto

lemma done_of_empty: "done_of cat {||} = 0"
  unfolding done_of_def by (induction cat) auto

lemma update_list_all:
  "list_all P al \<Longrightarrow> P (k, v) \<Longrightarrow> list_all P (AList.update k v al)"
  by (induction al) auto

text \<open>
  The per-topic loop never raises, and a property of single entries that holds for the
  entries already stored and for every entry the loop computes holds for the whole result.
\<close>

lemma per_topic_loop_inv:
  assumes "list_all P acc"
    and "\<And>t slugs p.
           percent (int (fcard (slugs |\<inter>| completed))) (int (fcard slugs)) = Inr p \<Longrightarrow>
           P (t, \<lparr>n_done = int (fcard (slugs |\<inter>| completed)),
                  n_total = int (fcard slugs), pct = p\<rparr>)"
  shows "\<exists>r. per_topic_loop cat completed acc = Inr r \<and> list_all P r"
  using assms(1)
proof (induction cat arbitrary: acc)
  case Nil
  then show ?case by simp
next
  case (Cons e cat)
  obtain t slugs where e: "e = (t, slugs)" by (cases e)
  let ?d = "int (fcard (slugs |\<inter>| completed))"
  have "0 \<le> ?d" and "?d \<le> int (fcard slugs)"
    by (simp_all add: fcard_inter_le)
  from percent_bounds [OF this] obtain p
    where p: "percent ?d (int (fcard slugs)) = Inr p" by blast
  let ?acc = "AList.update t \<lparr>n_done = ?d, n_total = int (fcard slugs), pct = p\<rparr> acc"
  have "list_all P ?acc"
    by (rule update_list_all [OF Cons.prems assms(2) [OF p]])
  from Cons.IH [OF this] show ?case
    by (simp add: e Let_def p)
qed

lemma aggregate_Inr:
  "\<exists>p per_topic.
     percent (done_of cat completed) (total_of cat) = Inr p
     \<and> per_topic_loop cat completed [] = Inr per_topic
     \<and> aggregate cat completed
         = Inr \<lparr>summary = \<lparr>n_done = done_of cat completed, n_total = total_of cat, pct = p\<rparr>,
                topics = per_topic\<rparr>"
proof -
  from percent_bounds [OF done_nonneg done_le_total]
  obtain p where p: "percent (done_of cat completed) (total_of cat) = Inr p" by blast
  from per_topic_loop_inv [of "\<lambda>_. True" "[]" completed cat]
  obtain r where r: "per_topic_loop cat completed [] = Inr r" by auto
  show ?thesis
    by (simp add: aggregate_def Let_def p r)
qed

text \<open>
  C7: for every catalog and every completed set the aggregation returns (it does not
  raise), and the overall summary and every per-topic summary satisfy \<open>done \<le> total\<close>
  and \<open>0 \<le> pct \<le> 100\<close>.
\<close>

theorem aggregate_bounds:
  "\<exists>out. aggregate cat completed = Inr out
     \<and> n_done (summary out) \<le> n_total (summary out)
     \<and> 0 \<le> pct (summary out) \<and> pct (summary out) \<le> 100
     \<and> list_all (\<lambda>(t, st). n_done st \<le> n_total st \<and> 0 \<le> pct st \<and> pct st \<le> 100)
          (topics out)"
proof -
  let ?P = "\<lambda>(t :: string, st :: stats). n_done st \<le> n_total st \<and> 0 \<le> pct st \<and> pct st \<le> 100"
  from percent_bounds [OF done_nonneg done_le_total]
  obtain p where p: "percent (done_of cat completed) (total_of cat) = Inr p"
    and pb: "0 \<le> p" "p \<le> 100" by blast
  have entry: "?P (t, \<lparr>n_done = int (fcard (slugs |\<inter>| completed)),
                       n_total = int (fcard slugs), pct = q\<rparr>)"
    if q: "percent (int (fcard (slugs |\<inter>| completed))) (int (fcard slugs)) = Inr q"
    for t slugs q
  proof -
    have "0 \<le> int (fcard (slugs |\<inter>| completed))"
      and le: "int (fcard (slugs |\<inter>| completed)) \<le> int (fcard slugs)"
      by (simp_all add: fcard_inter_le)
    from percent_bounds [OF this] q have "0 \<le> q" "q \<le> 100" by auto
    with le show ?thesis by simp
  qed
  have "list_all ?P []" by simp
  from per_topic_loop_inv [of ?P "[]" completed cat, OF this entry]
  obtain r where r: "per_topic_loop cat completed [] = Inr r" and all: "list_all ?P r"
    by blast
  have "aggregate cat completed
          = Inr \<lparr>summary = \<lparr>n_done = done_of cat completed, n_total = total_of cat, pct = p\<rparr>,
                 topics = r\<rparr>"
    by (simp add: aggregate_def Let_def p r)
  with pb all done_le_total [of cat completed] show ?thesis by simp
qed

subsection \<open>The state reader\<close>

text \<open>
  C9: when the state file is absent, \<open>read_completed_slugs\<close> returns the empty set, no
  error, and the run reports zero completions (overall and in every topic).
\<close>

theorem missing_state_file_no_completions:
  "read_completed_slugs None = {||}
     \<and> (\<exists>out. printed (main update_files (w\<lparr>state_file := None\<rparr>)) = Inr out
            \<and> n_done (summary out) = 0
            \<and> list_all (\<lambda>(t, st). n_done st = 0) (topics out))"
proof -
  let ?P = "\<lambda>(t :: string, st :: stats). n_done st = 0"
  let ?cat = "find_all_exercises (root w) (exercises w)"
  have r: "read_completed_slugs None = {||}"
    by (simp add: read_completed_slugs_def)
  from percent_bounds [OF done_nonneg done_le_total]
  obtain p where p: "percent (done_of ?cat {||}) (total_of ?cat) = Inr p" by blast
  have "list_all ?P []" by simp
  from per_topic_loop_inv [of ?P "[]" "{||}" ?cat, OF this]
  obtain per_topic where t: "per_topic_loop ?cat {||} [] = Inr per_topic"
    and all: "list_all ?P per_topic"
    by auto
  have "aggregate ?cat {||}
          = Inr \<lparr>summary = \<lparr>n_done = done_of ?cat {||}, n_total = total_of ?cat, pct = p\<rparr>,
                 topics = per_topic\<rparr>"
    by (simp add: aggregate_def Let_def p t)
  then have "printed (main update_files (w\<lparr>state_file := None\<rparr>))
          = Inr \<lparr>summary = \<lparr>n_done = done_of ?cat {||}, n_total = total_of ?cat, pct = p\<rparr>,
                 topics = per_topic\<rparr>"
    by (simp add: printed_def main_def Let_def r)
  with r all show ?thesis
    by (simp add: done_of_empty)
qed

subsection \<open>The overall count\<close>

text \<open>The per-topic sum against the single intersection of the specification.\<close>

lemma universe_fold:
  "fold (\<lambda>(t, v) u. u |\<union>| v) cat acc = acc |\<union>| universe cat"
proof (induction cat arbitrary: acc)
  case Nil
  show ?case by (simp add: universe_def)
next
  case (Cons x cat)
  obtain t v where x: "x = (t, v)" by (cases x)
  have "fold (\<lambda>(t, v) u. u |\<union>| v) (x # cat) acc = (acc |\<union>| v) |\<union>| universe cat"
    by (simp add: x Cons.IH)
  moreover have "universe (x # cat) = v |\<union>| universe cat"
  proof -
    have "universe (x # cat) = fold (\<lambda>(t, v) u. u |\<union>| v) cat ({||} |\<union>| v)"
      by (simp add: x universe_def)
    also have "\<dots> = ({||} |\<union>| v) |\<union>| universe cat"
      by (rule Cons.IH)
    finally show ?thesis by simp
  qed
  ultimately show ?case by (simp add: funion_assoc)
qed

lemma universe_Cons: "universe ((t, v) # cat) = v |\<union>| universe cat"
  using universe_fold [of "[(t, v)]" "{||}"] universe_fold [of cat v]
  by (simp add: universe_def)

lemma disjoint_universe:
  "list_all (\<lambda>(t', v'). v |\<inter>| v' = {||}) cat \<Longrightarrow> v |\<inter>| universe cat = {||}"
proof (induction cat)
  case Nil
  show ?case by (simp add: universe_def)
next
  case (Cons x cat)
  obtain t w where x: "x = (t, w)" by (cases x)
  from Cons.prems have w: "v |\<inter>| w = {||}" and rest: "v |\<inter>| universe cat = {||}"
    by (simp_all add: x Cons.IH)
  have "v |\<inter>| (w |\<union>| universe cat) = (v |\<inter>| w) |\<union>| (v |\<inter>| universe cat)"
    by (rule finter_funion_distrib)
  then show ?case
    by (simp add: x universe_Cons w rest)
qed

lemma done_of_disjoint:
  "disjoint_topics cat \<Longrightarrow> done_of cat completed = spec_done cat completed"
proof (induction cat)
  case Nil
  show ?case by (simp add: done_of_def spec_done_def universe_def)
next
  case (Cons x cat)
  obtain t v where x: "x = (t, v)" by (cases x)
  from Cons.prems have d: "v |\<inter>| universe cat = {||}" and r: "disjoint_topics cat"
    by (simp_all add: x disjoint_universe)
  have split: "(v |\<union>| universe cat) |\<inter>| completed =
                 (v |\<inter>| completed) |\<union>| (universe cat |\<inter>| completed)"
    by (rule finter_funion_distrib2)
  have "(v |\<inter>| completed) |\<inter>| (universe cat |\<inter>| completed) |\<subseteq>| v |\<inter>| universe cat"
    by auto
  with d have dis: "(v |\<inter>| completed) |\<inter>| (universe cat |\<inter>| completed) = {||}"
    by simp
  have "fcard ((v |\<union>| universe cat) |\<inter>| completed) =
          fcard (v |\<inter>| completed) + fcard (universe cat |\<inter>| completed)"
    unfolding split by (rule fcard_funion_disjoint [OF dis])
  then have "spec_done (x # cat) completed =
               int (fcard (v |\<inter>| completed)) + spec_done cat completed"
    by (simp add: x spec_done_def universe_Cons)
  moreover have "done_of (x # cat) completed =
                   int (fcard (v |\<inter>| completed)) + done_of cat completed"
    by (simp add: x done_of_def)
  ultimately show ?case using Cons.IH [OF r] by simp
qed

text \<open>
  C1, as stated, fails: the scanner names a topic after the parent directory and an
  identifier after the file stem, so two topic directories that each hold \<open>x.rs\<close> give
  two topic sets that share \<open>x\<close>. With \<open>x\<close> completed, the per-topic sum is 2 and the
  intersection with the union is 1.
\<close>

theorem done_sum_not_global_counterexample:
  "find_all_exercises [''/'', ''repo'']
       (Some (Dir [(''a'', Dir [(''x.rs'', File)]), (''b'', Dir [(''x.rs'', File)])]))
     = [(''a'', {|''x''|}), (''b'', {|''x''|})]
   \<and> done_of [(''a'', {|''x''|}), (''b'', {|''x''|})] {|''x''|} = 2
   \<and> spec_done [(''a'', {|''x''|}), (''b'', {|''x''|})] {|''x''|} = 1"
  by code_simp

text \<open>
  C1 (amended): for every catalog produced by the exercise scanner whose topic sets are
  pairwise disjoint, and every completed set, the sum over topics of the size of
  (topic set \<open>\<inter>\<close> completed) equals the size of (union of all topic sets \<open>\<inter>\<close> completed).
  The scanner does not make the topic sets disjoint by itself.
\<close>

theorem done_sum_equals_global_when_disjoint:
  assumes "disjoint_topics (find_all_exercises rt exer)"
  shows "done_of (find_all_exercises rt exer) completed
           = spec_done (find_all_exercises rt exer) completed"
  using assms by (rule done_of_disjoint)

theorem done_sum_equals_global_when_disjoint_witness:
  "disjoint_topics
     (find_all_exercises [''/'', ''repo'']
        (Some (Dir [(''a'', Dir [(''x.rs'', File), (''y.rs'', File)]),
                    (''b'', Dir [(''z.rs'', File)])])))
   \<and> done_of
       (find_all_exercises [''/'', ''repo'']
          (Some (Dir [(''a'', Dir [(''x.rs'', File), (''y.rs'', File)]),
                      (''b'', Dir [(''z.rs'', File)])])))
       {|''x'', ''z'', ''q''|}
     = spec_done
         (find_all_exercises [''/'', ''repo'']
            (Some (Dir [(''a'', Dir [(''x.rs'', File), (''y.rs'', File)]),
                        (''b'', Dir [(''z.rs'', File)])])))
         {|''x'', ''z'', ''q''|}"
proof -
  have h: "disjoint_topics
     (find_all_exercises [''/'', ''repo'']
        (Some (Dir [(''a'', Dir [(''x.rs'', File), (''y.rs'', File)]),
                    (''b'', Dir [(''z.rs'', File)])])))"
    by code_simp
  from h done_sum_equals_global_when_disjoint [OF h] show ?thesis by simp
qed

subsection \<open>The exercise scanner\<close>

lemma scan_removeAll:
  "excluded p \<Longrightarrow> scan (removeAll (p, f) es) acc = scan es acc"
proof (induction es arbitrary: acc)
  case Nil
  show ?case by simp
next
  case (Cons e es)
  obtain q g where e: "e = (q, g)" by (cases e)
  have ih: "scan (removeAll (p, f) es) acc' = scan es acc'" for acc'
    by (rule Cons.IH [OF Cons.prems])
  show ?case
  proof (cases "e = (p, f)")
    case True
    have "scan (e # es) acc = scan es acc"
      unfolding True using Cons.prems by simp
    moreover have "removeAll (p, f) (e # es) = removeAll (p, f) es"
      unfolding True by simp
    ultimately show ?thesis by (simp only: ih)
  next
    case False
    then have r: "removeAll (p, f) (e # es) = e # removeAll (p, f) es"
      by simp
    have "scan (e # removeAll (p, f) es) acc = scan (e # es) acc"
      unfolding e scan.simps ih by (rule refl)
    then show ?thesis by (simp only: r)
  qed
qed

lemma scan_filter:
  "scan (filter (\<lambda>(p, f). \<not> excluded p) es) acc = scan es acc"
proof (induction es arbitrary: acc)
  case Nil
  show ?case by simp
next
  case (Cons e es)
  obtain q g where e: "e = (q, g)" by (cases e)
  show ?case using Cons by (simp add: e)
qed

text \<open>
  C6: a listed entry with a path component in \<open>EXCLUDE_DIRS\<close>, at whatever depth the
  component sits and whatever the entry's extension, is never counted: the catalog is the
  one the scan builds from the listing without that entry.
\<close>

theorem excluded_entry_never_counted:
  assumes "list_ex (\<lambda>part. part \<in> EXCLUDE_DIRS) p"
  shows "find_all_exercises rt (Some t)
           = scan (removeAll (p, is_file) (rglob (EXER_DIR rt) t)) []"
proof -
  from assms have "excluded p" by (simp add: excluded_def)
  then show ?thesis
    by (simp add: find_all_exercises_def scan_removeAll)
qed

theorem excluded_entry_never_counted_witness:
  "list_ex (\<lambda>part. part \<in> EXCLUDE_DIRS)
       [''/'', ''repo'', ''exercises'', ''variables'', ''answers'', ''deep'', ''variables9.rs'']
   \<and> ([''/'', ''repo'', ''exercises'', ''variables'', ''answers'', ''deep'', ''variables9.rs''], True)
       \<in> set (rglob (EXER_DIR [''/'', ''repo''])
                 (Dir [(''variables'',
                        Dir [(''variables1.rs'', File),
                             (''answers'', Dir [(''deep'', Dir [(''variables9.rs'', File)])])])]))
   \<and> find_all_exercises [''/'', ''repo'']
       (Some (Dir [(''variables'',
                    Dir [(''variables1.rs'', File),
                         (''answers'', Dir [(''deep'', Dir [(''variables9.rs'', File)])])])]))
     = scan (removeAll
               ([''/'', ''repo'', ''exercises'', ''variables'', ''answers'', ''deep'',
                 ''variables9.rs''], True)
               (rglob (EXER_DIR [''/'', ''repo''])
                  (Dir [(''variables'',
                         Dir [(''variables1.rs'', File),
                              (''answers'',
                               Dir [(''deep'', Dir [(''variables9.rs'', File)])])])]))) []
   \<and> find_all_exercises [''/'', ''repo'']
       (Some (Dir [(''variables'',
                    Dir [(''variables1.rs'', File),
                         (''answers'', Dir [(''deep'', Dir [(''variables9.rs'', File)])])])]))
     = [(''variables'', {|''variables1''|})]"
proof -
  have h: "list_ex (\<lambda>part. part \<in> EXCLUDE_DIRS)
       [''/'', ''repo'', ''exercises'', ''variables'', ''answers'', ''deep'', ''variables9.rs'']"
    by code_simp
  have m: "([''/'', ''repo'', ''exercises'', ''variables'', ''answers'', ''deep'', ''variables9.rs''], True)
       \<in> set (rglob (EXER_DIR [''/'', ''repo''])
                 (Dir [(''variables'',
                        Dir [(''variables1.rs'', File),
                             (''answers'', Dir [(''deep'', Dir [(''variables9.rs'', File)])])])]))"
    by code_simp
  have c: "find_all_exercises [''/'', ''repo'']
       (Some (Dir [(''variables'',
                    Dir [(''variables1.rs'', File),
                         (''answers'', Dir [(''deep'', Dir [(''variables9.rs'', File)])])])]))
     = [(''variables'', {|''variables1''|})]"
    by code_simp
  from h m c excluded_entry_never_counted [OF h, of "[''/'', ''repo'']" _ True]
  show ?thesis by simp
qed

text \<open>
  Whatever the scan adds to the catalog comes from a listed regular file that is not
  excluded.
\<close>

lemma add_slug_member:
  "(t, v) \<in> set (add_slug topic slug cat) \<Longrightarrow> s |\<in>| v \<Longrightarrow>
     (t = topic \<and> s = slug) \<or> (\<exists>v'. (t, v') \<in> set cat \<and> s |\<in>| v')"
proof (induction cat)
  case Nil
  then show ?case by simp
next
  case (Cons e cat)
  obtain k w where e: "e = (k, w)" by (cases e)
  show ?case
  proof (cases "k = topic")
    case True
    with Cons.prems show ?thesis by (auto simp: e)
  next
    case False
    with Cons.prems have "(t, v) = (k, w) \<or> (t, v) \<in> set (add_slug topic slug cat)"
      by (simp add: e)
    then show ?thesis
    proof
      assume "(t, v) = (k, w)"
      with Cons.prems(2) show ?thesis by (auto simp: e)
    next
      assume "(t, v) \<in> set (add_slug topic slug cat)"
      from Cons.IH [OF this Cons.prems(2)] show ?thesis by auto
    qed
  qed
qed

lemma scan_member:
  "(t, v) \<in> set (scan es acc) \<Longrightarrow> s |\<in>| v \<Longrightarrow>
     (\<exists>v'. (t, v') \<in> set acc \<and> s |\<in>| v')
     \<or> (\<exists>p. (p, True) \<in> set es \<and> \<not> excluded p \<and> path_suffix p \<in> VALID_EXTS
              \<and> parent_name p = t \<and> path_stem p = s)"
proof (induction es arbitrary: acc)
  case Nil
  then show ?case by auto
next
  case (Cons e es)
  obtain q g where e: "e = (q, g)" by (cases e)
  show ?case
  proof (cases "\<not> excluded q \<and> g \<and> path_suffix q \<in> VALID_EXTS")
    case True
    with Cons.prems(1)
    have "(t, v) \<in> set (scan es (add_slug (parent_name q) (path_stem q) acc))"
      by (simp add: e)
    from Cons.IH [OF this Cons.prems(2)] show ?thesis
    proof
      assume "\<exists>v'. (t, v') \<in> set (add_slug (parent_name q) (path_stem q) acc) \<and> s |\<in>| v'"
      then obtain v' where "(t, v') \<in> set (add_slug (parent_name q) (path_stem q) acc)"
        and "s |\<in>| v'" by blast
      from add_slug_member [OF this] True show ?thesis
        by (auto simp: e)
    next
      assume "\<exists>p. (p, True) \<in> set es \<and> \<not> excluded p \<and> path_suffix p \<in> VALID_EXTS
                \<and> parent_name p = t \<and> path_stem p = s"
      then show ?thesis by auto
    qed
  next
    case False
    with Cons.prems(1) have "(t, v) \<in> set (scan es acc)"
      by (auto simp: e split: if_splits)
    from Cons.IH [OF this Cons.prems(2)] show ?thesis by auto
  qed
qed

lemma catalog_sound:
  assumes "(t, v) \<in> set (find_all_exercises rt (Some tree))" and "s |\<in>| v"
  shows "\<exists>p. (p, True) \<in> set (rglob (EXER_DIR rt) tree) \<and> \<not> excluded p
           \<and> path_suffix p \<in> VALID_EXTS \<and> parent_name p = t \<and> path_stem p = s"
  using scan_member [of t v "rglob (EXER_DIR rt) tree" "[]" s] assms
  by (simp add: find_all_exercises_def)

text \<open>
  Every entry listed below a directory carries the directory's path in front of its own
  components, so below a directory with an excluded name, at any depth, all entries are
  excluded and the scan adds nothing.
\<close>

lemma rglob_below:
  "(q, f) \<in> set (rglob p t) \<Longrightarrow> \<exists>rest. rest \<noteq> [] \<and> q = p @ rest"
proof (induction p t arbitrary: q f rule: rglob.induct)
  case (1 p)
  then show ?case by simp
next
  case (2 p cs)
  from "2.prems" have
    "(q, f) \<in> set (map (\<lambda>(n, c). (p @ [n], c = File)) cs)
       \<or> (q, f) \<in> set (concat (map (\<lambda>(n, c). rglob (p @ [n]) c) cs))"
    by simp
  then show ?case
  proof
    assume "(q, f) \<in> set (map (\<lambda>(n, c). (p @ [n], c = File)) cs)"
    then obtain n c where "q = p @ [n]" by auto
    then show ?thesis by simp
  next
    assume "(q, f) \<in> set (concat (map (\<lambda>(n, c). rglob (p @ [n]) c) cs))"
    then obtain n c where nc: "(n, c) \<in> set cs" and q: "(q, f) \<in> set (rglob (p @ [n]) c)"
      by auto
    from "2.IH" [OF nc refl q] obtain rest where "q = (p @ [n]) @ rest" by blast
    then show ?thesis by simp
  qed
qed

lemma scan_all_excluded:
  "list_all (\<lambda>(q, f). excluded q) es \<Longrightarrow> scan es acc = acc"
  by (induction es arbitrary: acc) auto

lemma scan_below_excluded_dir:
  assumes "n \<in> EXCLUDE_DIRS"
  shows "scan (rglob (p @ [n]) t) acc = acc"
proof (rule scan_all_excluded)
  have "excluded q" if "(q, f) \<in> set (rglob (p @ [n]) t)" for q f
  proof -
    from rglob_below [OF that] obtain rest where "q = (p @ [n]) @ rest" by blast
    with assms show ?thesis by (simp add: excluded_def)
  qed
  then show "list_all (\<lambda>(q, f). excluded q) (rglob (p @ [n]) t)"
    by (auto simp: list_all_iff)
qed




subsection \<open>The scenario\<close>




subsection \<open>Searching a string\<close>

lemma find_sub_None_prefix:
  "find_sub sub s = None \<Longrightarrow> \<not> prefix sub (drop j s)"
proof (induction s arbitrary: j)
  case Nil
  then show ?case by (simp split: if_splits)
next
  case (Cons c cs)
  from Cons.prems have h: "\<not> prefix sub (c # cs)" and t: "find_sub sub cs = None"
    by (simp_all split: if_splits)
  show ?case
  proof (cases j)
    case 0
    with h show ?thesis by simp
  next
    case (Suc i)
    with Cons.IH [OF t] show ?thesis by simp
  qed
qed

lemma find_sub_None_drop:
  "find_sub sub s = None \<Longrightarrow> find_sub sub (drop n s) = None"
proof (induction s arbitrary: n)
  case Nil
  then show ?case by simp
next
  case (Cons c cs)
  from Cons.prems have t: "find_sub sub cs = None"
    by (simp split: if_splits)
  show ?case
  proof (cases n)
    case 0
    with Cons.prems show ?thesis by simp
  next
    case (Suc m)
    with Cons.IH [OF t] show ?thesis by simp
  qed
qed

lemma find_sub_Some:
  "find_sub sub s = Some k \<Longrightarrow>
     k \<le> length s \<and> prefix sub (drop k s) \<and> (\<forall>j<k. \<not> prefix sub (drop j s))"
proof (induction s arbitrary: k)
  case Nil
  then show ?case by (simp split: if_splits)
next
  case (Cons c cs)
  show ?case
  proof (cases "prefix sub (c # cs)")
    case True
    with Cons.prems show ?thesis by simp
  next
    case False
    with Cons.prems obtain m where m: "find_sub sub cs = Some m" and k: "k = Suc m"
      by auto
    from Cons.IH [OF m] have ih: "m \<le> length cs" "prefix sub (drop m cs)"
      "\<forall>j<m. \<not> prefix sub (drop j cs)" by simp_all
    have "\<not> prefix sub (drop j (c # cs))" if "j < Suc m" for j
    proof (cases j)
      case 0
      with False show ?thesis by simp
    next
      case (Suc i)
      with that ih(3) show ?thesis by simp
    qed
    with ih k show ?thesis by simp
  qed
qed

lemma find_sub_skip:
  "sub \<noteq> [] \<Longrightarrow> hd sub \<notin> set u \<Longrightarrow> find_sub sub (u @ sub @ w) = Some (length u)"
proof (induction u)
  case Nil
  show ?case
  proof (cases "sub @ w")
    case Nil
    with \<open>sub \<noteq> []\<close> show ?thesis by simp
  next
    case (Cons a as)
    have "prefix sub (sub @ w)" by simp
    then show ?thesis by (simp add: Cons)
  qed
next
  case (Cons x u)
  from Cons.prems have ne: "hd sub \<noteq> x" and rest: "hd sub \<notin> set u" by auto
  have "\<not> prefix sub (x # u @ sub @ w)"
  proof
    assume "prefix sub (x # u @ sub @ w)"
    with \<open>sub \<noteq> []\<close> have "hd sub = x"
      by (cases sub) simp_all
    with ne show False by simp
  qed
  then show ?case using Cons.IH [OF Cons.prems(1) rest] by simp
qed

lemma prefix_long:
  assumes "length m \<le> length x"
  shows "prefix m (x @ a) = prefix m x"
proof
  assume "prefix m (x @ a)"
  then have "prefix m x \<or> (\<exists>us. m = x @ us \<and> prefix us a)"
    by (simp add: prefix_append)
  then show "prefix m x"
  proof
    assume "prefix m x"
    then show ?thesis .
  next
    assume "\<exists>us. m = x @ us \<and> prefix us a"
    then obtain us where "m = x @ us" by blast
    with assms show ?thesis by simp
  qed
next
  assume "prefix m x"
  then show "prefix m (x @ a)" by (rule prefix_prefix)
qed

lemma prefix_stops:
  assumes "x \<notin> set b" and "prefix b (u @ x # w)"
  shows "prefix b u"
proof -
  from assms(2) have "prefix b u \<or> (\<exists>us. b = u @ us \<and> prefix us (x # w))"
    by (simp add: prefix_append)
  then show ?thesis
  proof
    assume "prefix b u"
    then show ?thesis .
  next
    assume "\<exists>us. b = u @ us \<and> prefix us (x # w)"
    then obtain us where b: "b = u @ us" and p: "prefix us (x # w)" by blast
    show ?thesis
    proof (cases us)
      case Nil
      with b show ?thesis by simp
    next
      case (Cons y ys)
      with p have "y = x" by simp
      with b Cons assms(1) show ?thesis by simp
    qed
  qed
qed

subsection \<open>The substitution\<close>

lemma marker_nonempty: "marker \<noteq> []" "end_marker \<noteq> []"
  by (simp_all add: marker_def end_marker_def)

lemma re_sub_keep:
  "\<not> prefix marker (c # cs) \<Longrightarrow> re_sub r (c # cs) = c # re_sub r cs"
  by (simp add: re_sub.simps(2))

lemma re_sub_match:
  assumes "prefix marker s"
    and "find_sub end_marker (drop (length marker) s) = Some k"
  shows "re_sub r s = r @ re_sub r (drop (length marker + k + length end_marker) s)"
proof (cases s)
  case Nil
  with assms(1) marker_nonempty show ?thesis by simp
next
  case (Cons c cs)
  with assms show ?thesis by (simp add: re_sub.simps(2))
qed

lemma re_sub_no_end:
  "find_sub end_marker (drop n s) = None \<Longrightarrow> n \<le> length marker \<Longrightarrow> re_sub r s = s"
proof (induction s arbitrary: n)
  case Nil
  show ?case by simp
next
  case (Cons c cs)
  have "drop (length marker) (c # cs) = drop (length marker - n) (drop n (c # cs))"
    using Cons.prems(2) by simp
  then have e: "find_sub end_marker (drop (length marker) (c # cs)) = None"
    using find_sub_None_drop [OF Cons.prems(1)] by simp
  have step: "re_sub r (c # cs) = c # re_sub r cs"
    by (simp add: re_sub.simps(2) e)
  have "re_sub r cs = cs"
  proof (cases n)
    case 0
    with Cons.prems(1) have "find_sub end_marker (drop 0 cs) = None"
      by (simp split: if_splits)
    then show ?thesis by (rule Cons.IH) simp
  next
    case (Suc m)
    with Cons.prems have "find_sub end_marker (drop m cs) = None" "m \<le> length marker"
      by simp_all
    then show ?thesis by (rule Cons.IH)
  qed
  with step show ?case by simp
qed

lemma re_sub_skip:
  "\<forall>j<length u. \<not> prefix marker (drop j (u @ v)) \<Longrightarrow> re_sub r (u @ v) = u @ re_sub r v"
proof (induction u)
  case Nil
  show ?case by simp
next
  case (Cons x u)
  from Cons.prems have "\<not> prefix marker (drop 0 ((x # u) @ v))" by blast
  then have h: "\<not> prefix marker (x # u @ v)" by simp
  have "\<not> prefix marker (drop j (u @ v))" if "j < length u" for j
  proof -
    from that have "Suc j < length (x # u)" by simp
    with Cons.prems have "\<not> prefix marker (drop (Suc j) ((x # u) @ v))" by blast
    then show ?thesis by simp
  qed
  then have "re_sub r (u @ v) = u @ re_sub r v"
    by (intro Cons.IH) blast
  with re_sub_keep [OF h] show ?case by simp
qed

lemma re_sub_first:
  assumes "find_sub marker s = Some i"
  shows "re_sub r s = take i s @ re_sub r (drop i s)"
proof -
  from find_sub_Some [OF assms] have i: "i \<le> length s"
    and no: "\<forall>j<i. \<not> prefix marker (drop j s)" by simp_all
  have "\<forall>j<length (take i s). \<not> prefix marker (drop j (take i s @ drop i s))"
    using no i by simp
  from re_sub_skip [OF this] show ?thesis by simp
qed

lemma prefix_marker_re_sub:
  assumes "prefix marker r"
  shows "prefix marker (y @ re_sub r s) = prefix marker (y @ s)"
proof (induction "length s" arbitrary: s y rule: less_induct)
  case less
  show ?case
  proof (cases s)
    case Nil
    then show ?thesis by simp
  next
    case (Cons c cs)
    show ?thesis
    proof (cases "prefix marker s")
      case True
      show ?thesis
      proof (cases "find_sub end_marker (drop (length marker) s)")
        case None
        then have "re_sub r s = s" by (rule re_sub_no_end) simp
        then show ?thesis by simp
      next
        case (Some k)
        from assms obtain r' where r: "r = marker @ r'" by (auto simp: prefix_def)
        from True obtain s' where s: "s = marker @ s'" by (auto simp: prefix_def)
        have "prefix marker (y @ re_sub r s)
                = prefix marker ((y @ marker) @ r' @ re_sub r (drop (length marker + k + length end_marker) s))"
          by (simp add: re_sub_match [OF True Some] r)
        also have "\<dots> = prefix marker (y @ marker)"
          by (rule prefix_long) simp
        also have "\<dots> = prefix marker ((y @ marker) @ s')"
          by (rule prefix_long [symmetric]) simp
        finally show ?thesis by (simp add: s)
      qed
    next
      case False
      then have "re_sub r s = c # re_sub r cs"
        unfolding Cons by (rule re_sub_keep)
      then have "prefix marker (y @ re_sub r s) = prefix marker ((y @ [c]) @ re_sub r cs)"
        by simp
      also have "\<dots> = prefix marker ((y @ [c]) @ cs)"
        by (rule less) (simp add: Cons)
      finally show ?thesis by (simp add: Cons)
    qed
  qed
qed

lemma str_in_re_sub:
  assumes "prefix marker r" and "str_in marker s"
  shows "str_in marker (re_sub r s)"
proof -
  from assms(2) obtain i where i: "find_sub marker s = Some i"
    by (auto simp: str_in_def)
  from find_sub_Some [OF i] have p: "prefix marker (drop i s)" and le: "i \<le> length s"
    by simp_all
  have "prefix marker ([] @ re_sub r (drop i s))"
    unfolding prefix_marker_re_sub [OF assms(1)] using p by simp
  then have "prefix marker (drop (length (take i s)) (take i s @ re_sub r (drop i s)))"
    by simp
  then have "prefix marker (drop (length (take i s)) (re_sub r s))"
    by (simp only: re_sub_first [OF i])
  then show ?thesis
    unfolding str_in_def using find_sub_None_prefix by blast
qed

subsection \<open>The rendered block\<close>

lemma digit_char_not_lt: "k < 10 \<Longrightarrow> digit_char k \<noteq> CHR ''<''"
proof
  assume k: "k < 10" and "digit_char k = CHR ''<''"
  then have "(of_char (char_of (48 + k)) :: nat) = of_char (CHR ''<'')"
    by (simp add: digit_char_def)
  then have "(48 + k) mod 256 = 60" by (simp add: of_char_of)
  with k show False by simp
qed

lemma str_nat_no_lt: "CHR ''<'' \<notin> set (str_nat n)"
proof (induction n rule: str_nat.induct)
  case (1 n)
  show ?case
  proof (cases "n < 10")
    case True
    then show ?thesis
      using digit_char_not_lt [of n] by (subst str_nat.simps) auto
  next
    case False
    have "n mod 10 < 10" by simp
    from digit_char_not_lt [OF this] 1 [OF False] False show ?thesis
      by (subst str_nat.simps) auto
  qed
qed

lemma str_int_no_lt: "CHR ''<'' \<notin> set (str_int i)"
  by (simp add: str_int_def str_nat_no_lt)

lemma line_no_lt: "CHR ''<'' \<notin> set (line st)"
  by (simp add: line_def str_int_no_lt)

lemma prefix_marker_block: "prefix marker (block st)"
  by (simp add: block_def)

lemma re_sub_block:
  "re_sub r (block st @ w) = r @ re_sub r w"
proof -
  let ?mid = "NL # line st @ [NL]"
  have b: "block st @ w = marker @ ?mid @ end_marker @ w"
    by (simp add: block_def)
  have p: "prefix marker (block st @ w)"
    by (simp add: block_def)
  have "hd end_marker = CHR ''<''" by (simp add: end_marker_def)
  then have "hd end_marker \<notin> set ?mid"
    using line_no_lt [of st] by simp
  from find_sub_skip [OF marker_nonempty(2) this]
  have "find_sub end_marker (?mid @ end_marker @ w) = Some (length ?mid)" .
  then have f: "find_sub end_marker (drop (length marker) (block st @ w)) = Some (length ?mid)"
    by (simp add: b)
  have "drop (length marker + length ?mid + length end_marker) (block st @ w) = w"
    by (simp add: b)
  with re_sub_match [OF p f, of r] show ?thesis by simp
qed

lemma re_sub_idem:
  "re_sub (block st) (re_sub (block st) s) = re_sub (block st) s"
proof (induction "length s" arbitrary: s rule: less_induct)
  case less
  let ?r = "block st"
  show ?case
  proof (cases s)
    case Nil
    then show ?thesis by simp
  next
    case (Cons c cs)
    show ?thesis
    proof (cases "prefix marker s")
      case True
      show ?thesis
      proof (cases "find_sub end_marker (drop (length marker) s)")
        case None
        then have "re_sub ?r s = s" by (rule re_sub_no_end) simp
        then show ?thesis by simp
      next
        case (Some k)
        let ?s' = "drop (length marker + k + length end_marker) s"
        have m: "re_sub ?r s = ?r @ re_sub ?r ?s'"
          by (rule re_sub_match [OF True Some])
        have "length ?s' < length s"
          using marker_nonempty(1) by (simp add: Cons)
        then have "re_sub ?r (re_sub ?r ?s') = re_sub ?r ?s'"
          by (rule less)
        then show ?thesis
          by (simp add: m re_sub_block)
      qed
    next
      case False
      then have k: "re_sub ?r s = c # re_sub ?r cs"
        unfolding Cons by (rule re_sub_keep)
      have "prefix marker ([c] @ re_sub ?r cs) = prefix marker ([c] @ cs)"
        by (rule prefix_marker_re_sub [OF prefix_marker_block])
      with False have "\<not> prefix marker (c # re_sub ?r cs)"
        by (simp add: Cons)
      then have "re_sub ?r (c # re_sub ?r cs) = c # re_sub ?r (re_sub ?r cs)"
        by (rule re_sub_keep)
      moreover have "re_sub ?r (re_sub ?r cs) = re_sub ?r cs"
        by (rule less) (simp add: Cons)
      ultimately show ?thesis by (simp add: k)
    qed
  qed
qed

lemma NL_not_in_marker: "NL \<notin> set marker"
  by (simp add: marker_def)

lemma re_sub_appended:
  assumes "\<not> str_in marker s"
  shows "str_in marker (s @ [NL, NL] @ block st @ [NL])"
    and "re_sub (block st) (s @ [NL, NL] @ block st @ [NL]) = s @ [NL, NL] @ block st @ [NL]"
proof -
  let ?u = "s @ [NL, NL]"
  let ?v = "block st @ [NL]"
  from assms have none: "find_sub marker s = None"
    by (simp add: str_in_def)
  have "prefix marker (drop (length ?u) (?u @ ?v))"
    by (simp add: block_def)
  then have "find_sub marker (?u @ ?v) \<noteq> None"
    using find_sub_None_prefix by blast
  then show "str_in marker (s @ [NL, NL] @ block st @ [NL])"
    by (simp add: str_in_def)
  have no: "\<not> prefix marker (drop j (?u @ ?v))" if "j < length ?u" for j
  proof (cases "j \<le> length s")
    case True
    show ?thesis
    proof
      assume "prefix marker (drop j (?u @ ?v))"
      then have "prefix marker (drop j s @ NL # (NL # ?v))"
        using True by simp
      from prefix_stops [OF NL_not_in_marker this]
      show False using find_sub_None_prefix [OF none] by blast
    qed
  next
    case False
    with that have "j = Suc (length s)" by simp
    then have "drop j (?u @ ?v) = NL # ?v" by simp
    then show ?thesis by (simp add: marker_def)
  qed
  have "re_sub (block st) (?u @ ?v) = ?u @ re_sub (block st) ?v"
    by (rule re_sub_skip) (use no in blast)
  also have "re_sub (block st) ?v = block st @ re_sub (block st) [NL]"
    by (rule re_sub_block)
  also have "re_sub (block st) [NL] = [NL]"
    by (simp add: re_sub.simps(2) marker_def)
  finally show "re_sub (block st) (s @ [NL, NL] @ block st @ [NL])
                  = s @ [NL, NL] @ block st @ [NL]"
    by simp
qed

subsection \<open>The README patcher\<close>

text \<open>
  C10: a README that contains the begin marker and no end marker is left as it is:
  nothing is replaced and no block is appended.
\<close>

theorem begin_marker_without_end_unchanged:
  assumes "str_in marker content" and "\<not> str_in end_marker content"
  shows "patch_readme st (Some content) = Some content"
proof -
  from assms(2) have "find_sub end_marker (drop 0 content) = None"
    by (simp add: str_in_def)
  then have "re_sub (block st) content = content"
    by (rule re_sub_no_end) simp
  with assms(1) show ?thesis
    by (simp add: patch_readme_def)
qed

theorem begin_marker_without_end_unchanged_witness:
  "str_in marker (''# Journey'' @ [NL] @ marker @ [NL] @ ''stale'')
   \<and> \<not> str_in end_marker (''# Journey'' @ [NL] @ marker @ [NL] @ ''stale'')
   \<and> patch_readme \<lparr>n_done = 2, n_total = 3, pct = 67\<rparr>
        (Some (''# Journey'' @ [NL] @ marker @ [NL] @ ''stale''))
      = Some (''# Journey'' @ [NL] @ marker @ [NL] @ ''stale'')"
proof -
  have a: "str_in marker (''# Journey'' @ [NL] @ marker @ [NL] @ ''stale'')"
    by code_simp
  have b: "\<not> str_in end_marker (''# Journey'' @ [NL] @ marker @ [NL] @ ''stale'')"
    by code_simp
  from a b begin_marker_without_end_unchanged [OF a b] show ?thesis by simp
qed

text \<open>
  C4, as stated, fails. With the end marker in front of the begin marker both markers are
  found and nothing is replaced: the README stays as it is and holds no rendered block.
  With the begin marker alone the pair is not found and nothing is appended either.
\<close>

theorem patch_readme_both_found_counterexample:
  "str_in marker (end_marker @ marker) \<and> str_in end_marker (end_marker @ marker)
   \<and> patch_readme \<lparr>n_done = 2, n_total = 3, pct = 67\<rparr> (Some (end_marker @ marker))
       = Some (end_marker @ marker)
   \<and> \<not> str_in (block \<lparr>n_done = 2, n_total = 3, pct = 67\<rparr>) (end_marker @ marker)
   \<and> \<not> str_in end_marker (''# Journey'' @ marker)
   \<and> patch_readme \<lparr>n_done = 2, n_total = 3, pct = 67\<rparr> (Some (''# Journey'' @ marker))
       = Some (''# Journey'' @ marker)"
  by code_simp

text \<open>
  C4 (amended): for every existing README content, when the begin marker is found and an
  end marker follows it, everything from the first begin marker to the first end marker
  behind it (the markers included) is replaced by the freshly rendered content bounded by
  the same markers, the text in front is kept, and the text behind is treated the same
  way; when the begin marker is absent, a block of two newlines, the markers around the
  content and a newline is appended to the end of the file; and when the README file does
  not exist the step is skipped without error.
\<close>

theorem patch_readme_cases:
  "(find_sub marker content = Some i
      \<and> find_sub end_marker (drop (i + length marker) content) = Some k
      \<longrightarrow> patch_readme st (Some content)
            = Some (take i content @ block st
                      @ re_sub (block st)
                          (drop (i + length marker + k + length end_marker) content)))
   \<and> (\<not> str_in marker content
      \<longrightarrow> patch_readme st (Some content) = Some (content @ [NL, NL] @ block st @ [NL]))
   \<and> patch_readme st None = None"
proof -
  have replace: "patch_readme st (Some content)
            = Some (take i content @ block st
                      @ re_sub (block st)
                          (drop (i + length marker + k + length end_marker) content))"
    if i: "find_sub marker content = Some i"
      and k: "find_sub end_marker (drop (i + length marker) content) = Some k"
  proof -
    from i have "str_in marker content" by (simp add: str_in_def)
    then have p: "patch_readme st (Some content) = Some (re_sub (block st) content)"
      by (simp add: patch_readme_def)
    from find_sub_Some [OF i] have pre: "prefix marker (drop i content)" by simp
    from k have k': "find_sub end_marker (drop (length marker) (drop i content)) = Some k"
      by (simp add: add.commute)
    have "re_sub (block st) (drop i content)
            = block st
                @ re_sub (block st)
                    (drop (length marker + k + length end_marker) (drop i content))"
      by (rule re_sub_match [OF pre k'])
    also have "drop (length marker + k + length end_marker) (drop i content)
                 = drop (i + length marker + k + length end_marker) content"
      by (simp add: add.commute add.left_commute)
    finally show ?thesis
      unfolding p by (simp add: re_sub_first [OF i])
  qed
  have append: "patch_readme st (Some content) = Some (content @ [NL, NL] @ block st @ [NL])"
    if "\<not> str_in marker content"
    using that by (simp add: patch_readme_def)
  have "patch_readme st None = None"
    by (simp add: patch_readme_def)
  with replace append show ?thesis by blast
qed

theorem patch_readme_cases_witness:
  "find_sub marker (''intro'' @ marker @ ''stale'' @ end_marker @ ''outro'') = Some 5
   \<and> find_sub end_marker
        (drop (5 + length marker) (''intro'' @ marker @ ''stale'' @ end_marker @ ''outro''))
      = Some 5
   \<and> patch_readme \<lparr>n_done = 2, n_total = 3, pct = 67\<rparr>
        (Some (''intro'' @ marker @ ''stale'' @ end_marker @ ''outro''))
      = Some (''intro'' @ block \<lparr>n_done = 2, n_total = 3, pct = 67\<rparr> @ ''outro'')
   \<and> \<not> str_in marker ''# Journey''
   \<and> patch_readme \<lparr>n_done = 2, n_total = 3, pct = 67\<rparr> (Some ''# Journey'')
      = Some (''# Journey'' @ [NL, NL] @ block \<lparr>n_done = 2, n_total = 3, pct = 67\<rparr> @ [NL])"
proof -
  let ?c = "''intro'' @ marker @ ''stale'' @ end_marker @ ''outro''"
  let ?st = "\<lparr>n_done = 2, n_total = 3, pct = 67\<rparr>"
  have a: "find_sub marker ?c = Some 5"
    by code_simp
  have b: "find_sub end_marker (drop (5 + length marker) ?c) = Some 5"
    by code_simp
  have c: "\<not> str_in marker ''# Journey''"
    by code_simp
  have e: "take 5 ?c @ block ?st
             @ re_sub (block ?st) (drop (5 + length marker + 5 + length end_marker) ?c)
           = ''intro'' @ block ?st @ ''outro''"
    by code_simp
  from patch_readme_cases [of ?c 5 5 ?st] a b
  have "patch_readme ?st (Some ?c) = Some (''intro'' @ block ?st @ ''outro'')"
    unfolding e by blast
  moreover from patch_readme_cases [of "''# Journey''" 0 0 ?st] c
  have "patch_readme ?st (Some ''# Journey'')
          = Some (''# Journey'' @ [NL, NL] @ block ?st @ [NL])"
    by blast
  ultimately show ?thesis using a b c by blast
qed

text \<open>
  C5: for every README (existing or not) and every fixed summary, patching twice gives
  the README that patching once gives; no second marker block is added.
\<close>

theorem patch_readme_idempotent:
  "patch_readme st (patch_readme st rd) = patch_readme st rd"
proof (cases rd)
  case None
  then show ?thesis by (simp add: patch_readme_def)
next
  case (Some content)
  show ?thesis
  proof (cases "str_in marker content")
    case True
    then have p: "patch_readme st rd = Some (re_sub (block st) content)"
      by (simp add: Some patch_readme_def)
    have "str_in marker (re_sub (block st) content)"
      by (rule str_in_re_sub [OF prefix_marker_block True])
    then have "patch_readme st (Some (re_sub (block st) content))
                 = Some (re_sub (block st) (re_sub (block st) content))"
      by (simp add: patch_readme_def)
    then show ?thesis
      by (simp add: p re_sub_idem)
  next
    case False
    then have p: "patch_readme st rd = Some (content @ [NL, NL] @ block st @ [NL])"
      by (simp add: Some patch_readme_def)
    from re_sub_appended [OF False, of st]
    have "patch_readme st (Some (content @ [NL, NL] @ block st @ [NL]))
            = Some (content @ [NL, NL] @ block st @ [NL])"
      by (simp add: patch_readme_def)
    then show ?thesis by (simp add: p)
  qed
qed


end
